theory Spec2Isabelle
  imports Main "HOL-Library.Multiset" "HOL-Library.Sublist"
begin

section \<open>Huffman coding engine of Watts\_Portfolio\_Week8\_V6.py\<close>

text \<open>
  The script works on Python 3 strings. A symbol is one character of the phrase, that is
  one Unicode code point; the functions only compare symbols for equality, so the symbol
  type is a type variable \<open>'a\<close>. Concrete phrases over ASCII are written as HOL strings,
  phrases with more than 256 distinct code points as lists of code points (\<open>nat\<close>).

  Bit strings are Python strings over the characters \<open>0\<close> and \<open>1\<close>; they are HOL
  strings here. Frequencies are Python integers, hence \<open>int\<close>.
\<close>

subsection \<open>Data\<close>

text \<open>
  A node of the tree is either a Python \<open>str\<close> (a leaf, tested by
  \<open>type(node) is str\<close>) or a \<open>NodeTree\<close> object with the fields \<open>left\<close> and
  \<open>right\<close>.
\<close>

datatype 'a node = Leaf 'a | NodeTree (get_left: "'a node") (get_right: "'a node")

text \<open>The Python errors that the script can raise in the modelled part.\<close>

datatype error = IndexError | KeyError

text \<open>
  A Python \<open>dict\<close> keeps its keys in insertion order and \<open>items()\<close> walks them in that
  order: it is an association list whose keys are distinct. \<open>dict_set k v d\<close> is
  \<open>d[k] = v\<close>: an existing key keeps its position and gets the new value, a new key goes
  to the end. \<open>dict_update d e\<close> is \<open>d.update(e)\<close>.
\<close>

type_synonym ('k, 'v) dict = "('k \<times> 'v) list"

fun dict_set :: "'k \<Rightarrow> 'v \<Rightarrow> ('k, 'v) dict \<Rightarrow> ('k, 'v) dict" where
  "dict_set k v [] = [(k, v)]"
| "dict_set k v ((k', v') # d) =
     (if k' = k then (k', v) # d else (k', v') # dict_set k v d)"

definition dict_update :: "('k, 'v) dict \<Rightarrow> ('k, 'v) dict \<Rightarrow> ('k, 'v) dict" where
  "dict_update d e = foldl (\<lambda>acc (k, v). dict_set k v acc) d e"

text \<open>\<open>d[k]\<close> raises KeyError when the key is absent.\<close>

definition dict_get :: "('k, 'v) dict \<Rightarrow> 'k \<Rightarrow> error + 'v" where
  "dict_get d k = (case map_of d k of None \<Rightarrow> Inl KeyError | Some v \<Rightarrow> Inr v)"

subsection \<open>Sorting by frequency, largest first\<close>

text \<open>
  \<open>sorted(xs, key=itemgetter(1), reverse=True)\<close> is a stable sort by the second
  component in descending order: items with equal keys keep their relative order (Python
  keeps stability under \<open>reverse=True\<close>). The result of a stable sort is determined by its
  input, so the insertion sort below returns the list Python returns. An item is put in
  front of the first item whose key is not larger, and items are inserted from the right, so
  an earlier item ends up before a later one with the same key.
\<close>

fun insort_desc :: "'a \<times> int \<Rightarrow> ('a \<times> int) list \<Rightarrow> ('a \<times> int) list" where
  "insort_desc x [] = [x]"
| "insort_desc x (y # ys) = (if snd y \<le> snd x then x # y # ys else y # insort_desc x ys)"

definition sorted_desc :: "('a \<times> int) list \<Rightarrow> ('a \<times> int) list" where
  "sorted_desc xs = foldr insort_desc xs []"

subsection \<open>tally\<close>

text \<open>
  One pass of the loop body of \<open>tally\<close>: a letter already in \<open>phrase_dict\<close> gets its count
  increased, a new letter is added with count 1 (at the end of the dictionary).
\<close>

fun tally_letter :: "'a \<Rightarrow> ('a, int) dict \<Rightarrow> ('a, int) dict" where
  "tally_letter letter [] = [(letter, 1)]"
| "tally_letter letter ((k, n) # d) =
     (if k = letter then (k, n + 1) # d else (k, n) # tally_letter letter d)"

definition phrase_dict :: "'a list \<Rightarrow> ('a, int) dict" where
  "phrase_dict phrase = foldl (\<lambda>d letter. tally_letter letter d) [] phrase"

definition tally :: "'a list \<Rightarrow> ('a \<times> int) list" where
  "tally phrase = sorted_desc (phrase_dict phrase)"

subsection \<open>build\_nodes\<close>

text \<open>
  The items of \<open>tally_list\<close> are pairs of a node and a frequency. The script passes the
  list of \<open>tally\<close> unchanged, its characters being the leaves; \<open>leaves\<close> is that reading of
  the list.

  \<open>merge_step\<close> is the body of the while loop: \<open>tally_list[-1]\<close> is \<open>last\<close>,
  \<open>tally_list[-2]\<close> is the last of \<open>butlast\<close>, \<open>tally_list[:-2]\<close> drops both. The loop
  runs only while the list has more than one item, so none of these reads is out of range.
\<close>

definition leaves :: "('a \<times> int) list \<Rightarrow> ('a node \<times> int) list" where
  "leaves xs = map (\<lambda>(c, n). (Leaf c, n)) xs"

definition merge_step :: "('a node \<times> int) list \<Rightarrow> ('a node \<times> int) list" where
  "merge_step tally_list =
     (let (char_1, freq_1) = last tally_list;
          (char_2, freq_2) = last (butlast tally_list);
          rest = butlast (butlast tally_list);
          node = NodeTree char_1 char_2
      in sorted_desc (rest @ [(node, freq_1 + freq_2)]))"

lemma length_insort_desc [simp]: "length (insort_desc x ys) = Suc (length ys)"
  by (induction ys) auto

lemma length_sorted_desc [simp]: "length (sorted_desc xs) = length xs"
  by (induction xs) (auto simp: sorted_desc_def)

lemma length_merge_step: "1 < length xs \<Longrightarrow> length (merge_step xs) = length xs - 1"
  by (simp add: merge_step_def Let_def split: prod.splits)

function build_nodes :: "('a node \<times> int) list \<Rightarrow> ('a node \<times> int) list" where
  "build_nodes tally_list =
     (if 1 < length tally_list then build_nodes (merge_step tally_list) else tally_list)"
  by pat_completeness auto
termination
  by (relation "measure length") (auto simp: length_merge_step)

declare build_nodes.simps [simp del]

text \<open>\<open>node_tree[0][0]\<close> in the script: IndexError on the empty list.\<close>

definition root_of :: "('a node \<times> int) list \<Rightarrow> error + 'a node" where
  "root_of node_tree = (case node_tree of [] \<Rightarrow> Inl IndexError | (n, f) # _ \<Rightarrow> Inr n)"

subsection \<open>huffman\_encode and create\_huffman\_string\<close>

text \<open>
  The parameter \<open>left\<close> of both functions is never read (it is overwritten by the
  unpacking of \<open>get_children\<close>), so the model has the node and \<open>bin_string\<close> only.
\<close>

fun huffman_encode :: "'a node \<Rightarrow> string \<Rightarrow> ('a, string) dict" where
  "huffman_encode (Leaf c) bin_string = [(c, bin_string)]"
| "huffman_encode (NodeTree left right) bin_string =
     dict_update (dict_update [] (huffman_encode left (bin_string @ ''0'')))
       (huffman_encode right (bin_string @ ''1''))"

fun create_huffman_string :: "'a node \<Rightarrow> string \<Rightarrow> string" where
  "create_huffman_string (Leaf c) bin_string = bin_string"
| "create_huffman_string (NodeTree left right) bin_string =
     (let bin_string1 = bin_string @ create_huffman_string left (bin_string @ ''0'');
          bin_string2 = bin_string1 @ create_huffman_string right (bin_string1 @ ''1'')
      in bin_string2)"

subsection \<open>decode\<close>

text \<open>
  The inner loop of \<open>decode\<close> walks the dictionary in order and stops at the first code
  equal to \<open>temp_huff\<close>. The outer loop carries \<open>text\<close> and \<open>temp_huff\<close>.
\<close>

fun find_code :: "('a, string) dict \<Rightarrow> string \<Rightarrow> 'a option" where
  "find_code [] temp_huff = None"
| "find_code ((h_char, h_code) # d) temp_huff =
     (if h_code = temp_huff then Some h_char else find_code d temp_huff)"

fun decode_loop :: "('a, string) dict \<Rightarrow> string \<Rightarrow> 'a list \<Rightarrow> string \<Rightarrow> 'a list \<times> string" where
  "decode_loop huffman_dict [] text temp_huff = (text, temp_huff)"
| "decode_loop huffman_dict (char # rest) text temp_huff =
     (case find_code huffman_dict (temp_huff @ [char]) of
        Some h_char \<Rightarrow> decode_loop huffman_dict rest (text @ [h_char]) []
      | None \<Rightarrow> decode_loop huffman_dict rest text (temp_huff @ [char]))"

definition decode :: "('a, string) dict \<Rightarrow> string \<Rightarrow> 'a list" where
  "decode huffman_dict huffman_string = fst (decode_loop huffman_dict huffman_string [] [])"

subsection \<open>Sizes\<close>

definition size_of_original :: "'a list \<Rightarrow> int" where
  "size_of_original phrase = int (length phrase) * 8"

fun size_loop :: "('a \<times> int) list \<Rightarrow> ('a, string) dict \<Rightarrow> int \<Rightarrow> error + int" where
  "size_loop [] n_tree ret_bits = Inr ret_bits"
| "size_loop ((char, frequency) # rest) n_tree ret_bits =
     (case dict_get n_tree char of
        Inl e \<Rightarrow> Inl e
      | Inr code \<Rightarrow> size_loop rest n_tree (ret_bits + int (length code) * frequency))"

definition size_of_coded :: "('a \<times> int) list \<Rightarrow> ('a, string) dict \<Rightarrow> error + int" where
  "size_of_coded c_tally n_tree = size_loop c_tally n_tree 0"

subsection \<open>The script's pipeline\<close>

text \<open>
  The calls of the script in their order: \<open>char_tally\<close>, \<open>node_tree\<close>, the root
  \<open>node_tree[0][0]\<close>, \<open>huffman_code\<close>, \<open>encoded_string\<close> and the decoded phrase.
\<close>

definition node_tree :: "'a list \<Rightarrow> ('a node \<times> int) list" where
  "node_tree phrase = build_nodes (leaves (tally phrase))"

definition huffman_code :: "'a list \<Rightarrow> error + ('a, string) dict" where
  "huffman_code phrase =
     (case root_of (node_tree phrase) of Inl e \<Rightarrow> Inl e | Inr n \<Rightarrow> Inr (huffman_encode n []))"

definition encoded_string :: "'a list \<Rightarrow> error + string" where
  "encoded_string phrase =
     (case root_of (node_tree phrase) of Inl e \<Rightarrow> Inl e | Inr n \<Rightarrow> Inr (create_huffman_string n []))"

definition decoded_phrase :: "'a list \<Rightarrow> error + 'a list" where
  "decoded_phrase phrase =
     (case huffman_code phrase of
        Inl e \<Rightarrow> Inl e
      | Inr d \<Rightarrow> (case encoded_string phrase of Inl e \<Rightarrow> Inl e | Inr s \<Rightarrow> Inr (decode d s)))"

definition new_size :: "'a list \<Rightarrow> error + int" where
  "new_size phrase =
     (case huffman_code phrase of Inl e \<Rightarrow> Inl e | Inr d \<Rightarrow> size_of_coded (tally phrase) d)"

subsection \<open>The encoder as the specification words it\<close>

text \<open>
  The specification's encoder takes the symbol sequence and the code table and
  concatenates the code of each symbol in input order; a symbol without an entry is a
  lookup failure. The script has no function of this shape; this definition follows the
  specification's words and is compared with \<open>create_huffman_string\<close>.
\<close>

fun spec_encode :: "'a list \<Rightarrow> ('a, string) dict \<Rightarrow> error + string" where
  "spec_encode [] table = Inr []"
| "spec_encode (s # rest) table =
     (case dict_get table s of
        Inl e \<Rightarrow> Inl e
      | Inr code \<Rightarrow> (case spec_encode rest table of Inl e \<Rightarrow> Inl e | Inr bits \<Rightarrow> Inr (code @ bits)))"

subsection \<open>Properties of a code table\<close>

text \<open>
  A table is prefix-free when no code of one symbol is a prefix of the code of another
  symbol (equal codes included); its codes are non-empty when no entry has the empty code.
\<close>

definition prefix_free :: "('a, string) dict \<Rightarrow> bool" where
  "prefix_free d = (\<forall>(k1, c1) \<in> set d. \<forall>(k2, c2) \<in> set d. k1 \<noteq> k2 \<longrightarrow> \<not> prefix c1 c2)"

definition nonempty_codes :: "('a, string) dict \<Rightarrow> bool" where
  "nonempty_codes d = (\<forall>(k, c) \<in> set d. c \<noteq> [])"

subsection \<open>Leaves, frequencies and cost of a tree\<close>

text \<open>
  Notions used to reason about the trees that \<open>build_nodes\<close> makes: the leaves of a
  node from left to right, the frequency of a node under a frequency function \<open>f\<close> on
  symbols (the sum over its leaves), and its cost (the sum over its leaves of depth times
  frequency, written as the sum of the frequencies of all nodes below the root). For a list
  of items, \<open>forest_leaves\<close> and \<open>forest_cost\<close> add these up, and \<open>weights_match\<close>
  says that every item carries the frequency of its node.
\<close>

fun leaf_list :: "'a node \<Rightarrow> 'a list" where
  "leaf_list (Leaf c) = [c]"
| "leaf_list (NodeTree l r) = leaf_list l @ leaf_list r"

fun weight :: "('a \<Rightarrow> int) \<Rightarrow> 'a node \<Rightarrow> int" where
  "weight f (Leaf c) = f c"
| "weight f (NodeTree l r) = weight f l + weight f r"

fun cost :: "('a \<Rightarrow> int) \<Rightarrow> 'a node \<Rightarrow> int" where
  "cost f (Leaf c) = 0"
| "cost f (NodeTree l r) = cost f l + cost f r + weight f l + weight f r"

definition forest_leaves :: "('a node \<times> int) list \<Rightarrow> 'a list" where
  "forest_leaves xs = concat (map (\<lambda>p. leaf_list (fst p)) xs)"

definition forest_cost :: "('a \<Rightarrow> int) \<Rightarrow> ('a node \<times> int) list \<Rightarrow> int" where
  "forest_cost f xs = sum_list (map (\<lambda>p. cost f (fst p)) xs)"

definition weights_match :: "('a \<Rightarrow> int) \<Rightarrow> ('a node \<times> int) list \<Rightarrow> bool" where
  "weights_match f xs = (\<forall>p \<in> set xs. snd p = weight f (fst p))"

section \<open>Sorting keeps the items\<close>

lemma mset_insort_desc: "mset (insort_desc x ys) = add_mset x (mset ys)"
  by (induction ys) auto

lemma mset_sorted_desc: "mset (sorted_desc xs) = mset xs"
  by (induction xs) (auto simp: sorted_desc_def mset_insort_desc)

lemma set_sorted_desc: "set (sorted_desc xs) = set xs"
  using mset_sorted_desc [of xs] by (metis set_mset_mset)

lemma sum_snd_sorted_desc: "sum_list (map snd (sorted_desc xs)) = sum_list (map snd xs)"
proof -
  have "mset (map snd (sorted_desc xs)) = mset (map snd xs)"
    by (simp add: mset_sorted_desc)
  then show ?thesis by (metis sum_mset_sum_list)
qed

lemma distinct_fst_sorted_desc:
  "distinct (map fst (sorted_desc xs)) = distinct (map fst xs)"
proof -
  have "mset (map fst (sorted_desc xs)) = mset (map fst xs)"
    by (simp add: mset_sorted_desc)
  then show ?thesis by (metis mset_eq_imp_distinct_iff)
qed

section \<open>The tallier\<close>

lemma keys_tally_letter: "fst ` set (tally_letter c d) = insert c (fst ` set d)"
  by (induction c d rule: tally_letter.induct) (auto simp: image_iff)

lemma distinct_tally_letter:
  "distinct (map fst d) \<Longrightarrow> distinct (map fst (tally_letter c d))"
proof (induction d)
  case Nil
  then show ?case by simp
next
  case (Cons p d)
  obtain k n where p: "p = (k, n)" by (cases p)
  from Cons show ?case
    using keys_tally_letter [of c d] by (auto simp: p)
qed

lemma sum_tally_letter:
  "sum_list (map snd (tally_letter c d)) = sum_list (map snd d) + 1"
  by (induction d) auto

lemma map_of_tally_letter:
  "map_of (tally_letter c d) k =
     (if k = c then Some (case map_of d c of None \<Rightarrow> 1 | Some n \<Rightarrow> n + 1) else map_of d k)"
  by (induction d) auto

lemma phrase_dict_snoc: "phrase_dict (S @ [c]) = tally_letter c (phrase_dict S)"
  by (simp add: phrase_dict_def)

lemma phrase_dict_Nil: "phrase_dict [] = []"
  by (simp add: phrase_dict_def)

lemma keys_phrase_dict: "fst ` set (phrase_dict S) = set S"
  by (induction S rule: rev_induct) (auto simp: phrase_dict_snoc phrase_dict_Nil keys_tally_letter)

lemma distinct_phrase_dict: "distinct (map fst (phrase_dict S))"
  by (induction S rule: rev_induct) (auto simp: phrase_dict_snoc phrase_dict_Nil distinct_tally_letter)

lemma sum_phrase_dict: "sum_list (map snd (phrase_dict S)) = int (length S)"
  by (induction S rule: rev_induct) (auto simp: phrase_dict_snoc phrase_dict_Nil sum_tally_letter)

lemma map_of_phrase_dict:
  "map_of (phrase_dict S) c = (if c \<in> set S then Some (int (count_list S c)) else None)"
proof (induction S rule: rev_induct)
  case Nil
  then show ?case by (simp add: phrase_dict_Nil)
next
  case (snoc x S)
  then show ?case
    by (auto simp: phrase_dict_snoc map_of_tally_letter)
qed

lemma tally_entry:
  assumes "(c, n) \<in> set (tally S)"
  shows "c \<in> set S \<and> n = int (count_list S c)"
proof -
  from assms have "(c, n) \<in> set (phrase_dict S)"
    by (simp add: tally_def set_sorted_desc)
  then have "map_of (phrase_dict S) c = Some n"
    using distinct_phrase_dict [of S] by simp
  then show ?thesis
    by (simp add: map_of_phrase_dict split: if_splits)
qed

text \<open>
  C7 (frequency table). For every phrase, the empty one included, the keys of the tally are
  distinct and are exactly the symbols of the phrase, every count is positive (it is the
  number of occurrences of its symbol), the counts add up to the length of the phrase, and
  the tally of the empty phrase is empty.
\<close>

theorem tally_frequency_table:
  "distinct (map fst (tally S))
   \<and> fst ` set (tally S) = set S
   \<and> (\<forall>(c, n) \<in> set (tally S). 0 < n \<and> n = int (count_list S c))
   \<and> sum_list (map snd (tally S)) = int (length S)
   \<and> tally ([] :: 'a list) = []"
proof -
  have pos: "\<forall>(c, n) \<in> set (tally S). 0 < n \<and> n = int (count_list S c)"
  proof (clarify)
    fix c n assume "(c, n) \<in> set (tally S)"
    then have "c \<in> set S" and n: "n = int (count_list S c)"
      using tally_entry by fastforce+
    then have "0 < count_list S c" by (simp add: count_list_0_iff zero_less_iff_neq_zero)
    with n show "0 < n \<and> n = int (count_list S c)" by simp
  qed
  have empty: "tally ([] :: 'a list) = []"
    by (simp add: tally_def phrase_dict_Nil sorted_desc_def)
  have keys: "distinct (map fst (tally S))" "fst ` set (tally S) = set S"
    by (simp_all add: tally_def distinct_fst_sorted_desc distinct_phrase_dict set_sorted_desc
        keys_phrase_dict)
  have total: "sum_list (map snd (tally S)) = int (length S)"
    by (simp add: tally_def sum_snd_sorted_desc sum_phrase_dict)
  from keys pos total empty show ?thesis by blast
qed

text \<open>The statement at the phrase \<open>aaabbc\<close>, whose tally has three entries.\<close>

theorem tally_frequency_table_witness:
  "tally ''aaabbc'' = [(CHR ''a'', 3), (CHR ''b'', 2), (CHR ''c'', 1)]
   \<and> (CHR ''b'', 2) \<in> set (tally ''aaabbc'')
   \<and> (0 :: int) < 2 \<and> (2 :: int) = int (count_list ''aaabbc'' CHR ''b'')
   \<and> distinct (map fst (tally ''aaabbc''))
   \<and> fst ` set (tally ''aaabbc'') = set ''aaabbc''
   \<and> sum_list (map snd (tally ''aaabbc'')) = int (length ''aaabbc'')
   \<and> tally ([] :: string) = []"
proof -
  have t: "tally ''aaabbc'' = [(CHR ''a'', 3), (CHR ''b'', 2), (CHR ''c'', 1)]"
    by code_simp
  have m: "(CHR ''b'', 2) \<in> set (tally ''aaabbc'')"
    by (simp add: t)
  note table = tally_frequency_table [of "''aaabbc''"]
  from table have k1: "distinct (map fst (tally ''aaabbc''))" by (rule conjunct1)
  from table have r1: "fst ` set (tally ''aaabbc'') = set ''aaabbc''
   \<and> (\<forall>(c, n) \<in> set (tally ''aaabbc''). 0 < n \<and> n = int (count_list ''aaabbc'' c))
   \<and> sum_list (map snd (tally ''aaabbc'')) = int (length ''aaabbc'')
   \<and> tally ([] :: string) = []" by (rule conjunct2)
  from r1 have k2: "fst ` set (tally ''aaabbc'') = set ''aaabbc''" by (rule conjunct1)
  from r1 have r2: "(\<forall>(c, n) \<in> set (tally ''aaabbc''). 0 < n \<and> n = int (count_list ''aaabbc'' c))
   \<and> sum_list (map snd (tally ''aaabbc'')) = int (length ''aaabbc'')
   \<and> tally ([] :: string) = []" by (rule conjunct2)
  from r2 have all: "\<forall>(c, n) \<in> set (tally ''aaabbc''). 0 < n \<and> n = int (count_list ''aaabbc'' c)"
    by (rule conjunct1)
  from r2 have r3: "sum_list (map snd (tally ''aaabbc'')) = int (length ''aaabbc'')
   \<and> tally ([] :: string) = []" by (rule conjunct2)
  from bspec [OF all m]
  have b: "(0 :: int) < 2 \<and> (2 :: int) = int (count_list ''aaabbc'' CHR ''b'')"
    by (unfold prod.case) assumption
  from t m b k1 k2 r3 show ?thesis
    by (intro conjI) (erule conjunct1 conjunct2 | assumption)+
qed

section \<open>The tree builder\<close>

lemma last_two_split:
  "1 < length xs \<Longrightarrow> xs = butlast (butlast xs) @ [last (butlast xs), last xs]"
proof -
  assume len: "1 < length xs"
  then have "xs \<noteq> []" by auto
  then have a: "xs = butlast xs @ [last xs]" by simp
  from len have "butlast xs \<noteq> []" by (cases xs) (auto split: if_splits)
  then have "butlast xs = butlast (butlast xs) @ [last (butlast xs)]" by simp
  with a show ?thesis by (metis append.assoc append_Cons append_Nil)
qed

lemma merge_step_eq:
  "merge_step xs =
     sorted_desc (butlast (butlast xs) @
       [(NodeTree (fst (last xs)) (fst (last (butlast xs))),
         snd (last xs) + snd (last (butlast xs)))])"
  by (simp add: merge_step_def Let_def split: prod.splits)

lemma sum_merge_step:
  assumes "1 < length xs"
  shows "sum_list (map snd (merge_step xs)) = sum_list (map snd xs)"
proof -
  have "sum_list (map snd xs)
      = sum_list (map snd (butlast (butlast xs) @ [last (butlast xs), last xs]))"
    using last_two_split [OF assms] by simp
  then show ?thesis
    by (simp add: merge_step_eq sum_snd_sorted_desc)
qed

lemma build_nodes_sum:
  "xs \<noteq> [] \<Longrightarrow> \<exists>node. build_nodes xs = [(node, sum_list (map snd xs))]"
proof (induction xs rule: build_nodes.induct)
  case (1 xs)
  show ?case
  proof (cases "1 < length xs")
    case True
    then have "merge_step xs \<noteq> []"
      using length_merge_step [OF True] by auto
    with "1.IH" True obtain node where
      "build_nodes (merge_step xs) = [(node, sum_list (map snd (merge_step xs)))]"
      by blast
    with True show ?thesis
      by (simp add: build_nodes.simps [of xs] sum_merge_step)
  next
    case False
    with "1.prems" obtain t w where "xs = [(t, w)]"
      by (cases xs) auto
    then show ?thesis by (simp add: build_nodes.simps)
  qed
qed

text \<open>
  C10 (one item, the sum of the frequencies). For every non-empty frequency list,
  \<open>build_nodes\<close> returns a list of exactly one item whose frequency is the sum of all
  frequencies of the input. Each merge step replaces the last two items by one item, the
  \<open>NodeTree\<close> of their two nodes carrying the sum of their two frequencies, and so keeps
  the sum over the list.
\<close>

theorem build_nodes_single_item:
  "tally_list \<noteq> [] \<Longrightarrow>
     (\<exists>node. build_nodes tally_list = [(node, sum_list (map snd tally_list))])
     \<and> (1 < length tally_list \<longrightarrow>
          merge_step tally_list =
            sorted_desc (butlast (butlast tally_list) @
              [(NodeTree (fst (last tally_list)) (fst (last (butlast tally_list))),
                snd (last tally_list) + snd (last (butlast tally_list)))])
          \<and> sum_list (map snd (merge_step tally_list)) = sum_list (map snd tally_list))"
  using build_nodes_sum [of tally_list] merge_step_eq [of tally_list] sum_merge_step [of tally_list]
  by blast

text \<open>The statement at the three leaves of the phrase \<open>aaabbc\<close>.\<close>

theorem build_nodes_single_item_witness:
  "[(Leaf CHR ''a'', 3 :: int), (Leaf CHR ''b'', 2), (Leaf CHR ''c'', 1)] \<noteq> []
   \<and> 1 < length [(Leaf CHR ''a'', 3 :: int), (Leaf CHR ''b'', 2), (Leaf CHR ''c'', 1)]
   \<and> build_nodes [(Leaf CHR ''a'', 3), (Leaf CHR ''b'', 2), (Leaf CHR ''c'', 1)]
       = [(NodeTree (NodeTree (Leaf CHR ''c'') (Leaf CHR ''b'')) (Leaf CHR ''a''), 6)]
   \<and> merge_step [(Leaf CHR ''a'', 3), (Leaf CHR ''b'', 2), (Leaf CHR ''c'', 1)]
       = [(Leaf CHR ''a'', 3), (NodeTree (Leaf CHR ''c'') (Leaf CHR ''b''), 3)]
   \<and> sum_list (map snd (merge_step [(Leaf CHR ''a'', 3), (Leaf CHR ''b'', 2), (Leaf CHR ''c'', 1)]))
       = sum_list (map snd [(Leaf CHR ''a'', 3 :: int), (Leaf CHR ''b'', 2), (Leaf CHR ''c'', 1)])"
proof -
  have m: "merge_step [(Leaf CHR ''a'', 3), (Leaf CHR ''b'', 2), (Leaf CHR ''c'', 1)]
       = [(Leaf CHR ''a'', 3), (NodeTree (Leaf CHR ''c'') (Leaf CHR ''b''), 3)]"
    by code_simp
  have b: "build_nodes [(Leaf CHR ''a'', 3), (Leaf CHR ''b'', 2), (Leaf CHR ''c'', 1)]
       = [(NodeTree (NodeTree (Leaf CHR ''c'') (Leaf CHR ''b'')) (Leaf CHR ''a''), 6)]"
    by code_simp
  show ?thesis
    using build_nodes_single_item [of "[(Leaf CHR ''a'', 3), (Leaf CHR ''b'', 2), (Leaf CHR ''c'', 1)]"]
    by (simp add: m b)
qed

section \<open>The decoder\<close>

lemma find_code_None_iff: "find_code d p = None \<longleftrightarrow> p \<notin> snd ` set d"
  by (induction d) (auto simp: image_iff split: if_splits)

lemma find_code_unique:
  "(k, c) \<in> set d \<Longrightarrow> (\<And>k'. (k', c) \<in> set d \<Longrightarrow> k' = k) \<Longrightarrow> find_code d c = Some k"
proof (induction d)
  case Nil
  then show ?case by simp
next
  case (Cons p d)
  obtain h_char h_code where p: "p = (h_char, h_code)" by (cases p)
  show ?case
  proof (cases "h_code = c")
    case True
    then have "(h_char, c) \<in> set (p # d)" by (simp add: p)
    then have "h_char = k" by (rule Cons.prems(2))
    with True show ?thesis by (simp add: p)
  next
    case False
    with Cons.prems(1) have mem: "(k, c) \<in> set d" by (simp add: p)
    have "find_code d c = Some k"
    proof (rule Cons.IH [OF mem])
      fix k' assume "(k', c) \<in> set d"
      then have "(k', c) \<in> set (p # d)" by simp
      then show "k' = k" by (rule Cons.prems(2))
    qed
    with False show ?thesis by (simp add: p)
  qed
qed

lemma decode_loop_no_match:
  "(\<And>p. p \<noteq> [] \<Longrightarrow> prefix p r \<Longrightarrow> find_code d (temp @ p) = None)
   \<Longrightarrow> decode_loop d r acc temp = (acc, temp @ r)"
proof (induction r arbitrary: temp)
  case Nil
  then show ?case by simp
next
  case (Cons x r)
  have "find_code d (temp @ [x]) = None"
    using Cons.prems [of "[x]"] by simp
  moreover have "decode_loop d r acc (temp @ [x]) = (acc, (temp @ [x]) @ r)"
  proof (rule Cons.IH)
    fix p :: string
    assume "p \<noteq> []" "prefix p r"
    then show "find_code d ((temp @ [x]) @ p) = None"
      using Cons.prems [of "x # p"] by simp
  qed
  ultimately show ?case by simp
qed

lemma decode_loop_one_code:
  "sfx \<noteq> [] \<Longrightarrow> find_code d (temp @ sfx) = Some k
   \<Longrightarrow> (\<And>q. q \<noteq> [] \<Longrightarrow> strict_prefix q (temp @ sfx) \<Longrightarrow> find_code d q = None)
   \<Longrightarrow> decode_loop d (sfx @ rest) acc temp = decode_loop d rest (acc @ [k]) []"
proof (induction sfx arbitrary: temp)
  case Nil
  then show ?case by simp
next
  case (Cons x sfx)
  show ?case
  proof (cases "sfx = []")
    case True
    with Cons.prems show ?thesis by simp
  next
    case False
    have sp: "strict_prefix (temp @ [x]) (temp @ x # sfx)"
      using False by (simp add: strict_prefix_def)
    have none: "find_code d (temp @ [x]) = None"
      using Cons.prems(3) [OF _ sp] by simp
    have "decode_loop d (sfx @ rest) acc (temp @ [x]) = decode_loop d rest (acc @ [k]) []"
      using Cons.IH [of "temp @ [x]"] False Cons.prems(2,3) by simp
    with none show ?thesis by simp
  qed
qed

lemma prefix_freeD:
  assumes "prefix_free d" "(k1, c1) \<in> set d" "(k2, c2) \<in> set d" "k1 \<noteq> k2"
  shows "\<not> prefix c1 c2"
proof -
  from assms(1) have "\<forall>x \<in> set d. \<forall>y \<in> set d. fst x \<noteq> fst y \<longrightarrow> \<not> prefix (snd x) (snd y)"
    by (simp add: prefix_free_def case_prod_beta)
  from this [rule_format, OF assms(2) assms(3)] assms(4) show ?thesis by simp
qed

lemma nonempty_codesD: "nonempty_codes d \<Longrightarrow> (k, c) \<in> set d \<Longrightarrow> c \<noteq> []"
proof -
  assume "nonempty_codes d" and mem: "(k, c) \<in> set d"
  then have "\<forall>x \<in> set d. snd x \<noteq> []"
    by (simp add: nonempty_codes_def case_prod_beta)
  from this [rule_format, OF mem] show ?thesis by simp
qed

lemma table_code_found:
  assumes "distinct (map fst d)" "prefix_free d" "(k, c) \<in> set d"
  shows "find_code d c = Some k"
proof (rule find_code_unique [OF assms(3)])
  fix k' assume k': "(k', c) \<in> set d"
  show "k' = k"
  proof (rule ccontr)
    assume "k' \<noteq> k"
    from prefix_freeD [OF assms(2) k' assms(3) this] show False by simp
  qed
qed

lemma table_strict_prefix_not_found:
  assumes "distinct (map fst d)" "prefix_free d" "(k, c) \<in> set d" "strict_prefix q c"
  shows "find_code d q = None"
proof (rule ccontr)
  assume "find_code d q \<noteq> None"
  then have "q \<in> snd ` set d"
    by (simp add: find_code_None_iff)
  then obtain k' where k': "(k', q) \<in> set d"
    by (auto simp: image_iff)
  show False
  proof (cases "k' = k")
    case True
    have "q = c"
      using assms(1) k' [unfolded True] assms(3) by (rule eq_key_imp_eq_value)
    with assms(4) show False by simp
  next
    case False
    from prefix_freeD [OF assms(2) k' assms(3) False] have "\<not> prefix q c" .
    with assms(4) show False by (simp add: strict_prefix_def)
  qed
qed

lemma dict_get_in_set: "dict_get d s = Inr c \<Longrightarrow> (s, c) \<in> set d"
  by (auto simp: dict_get_def split: option.splits dest: map_of_SomeD)

lemma decode_loop_spec_encode:
  assumes "distinct (map fst d)" "prefix_free d" "nonempty_codes d"
    and "\<And>p. p \<noteq> [] \<Longrightarrow> prefix p r \<Longrightarrow> find_code d p = None"
  shows "spec_encode S d = Inr bits \<Longrightarrow> decode_loop d (bits @ r) acc [] = (acc @ S, r)"
proof (induction S arbitrary: bits acc)
  case Nil
  then have "bits = []" by simp
  then show ?case
    using decode_loop_no_match [of r d "[]" acc] assms(4) by simp
next
  case (Cons s S)
  from Cons.prems obtain c rest where c: "dict_get d s = Inr c"
    and rest: "spec_encode S d = Inr rest" and bits: "bits = c @ rest"
    by (auto split: sum.splits)
  have mem: "(s, c) \<in> set d" using c by (rule dict_get_in_set)
  have ne: "c \<noteq> []" using assms(3) mem by (rule nonempty_codesD)
  have found: "find_code d ([] @ c) = Some s"
    using table_code_found [OF assms(1,2) mem] by simp
  have "decode_loop d (c @ (rest @ r)) acc [] = decode_loop d (rest @ r) (acc @ [s]) []"
  proof (rule decode_loop_one_code [OF ne found])
    fix q :: string
    assume "q \<noteq> []" "strict_prefix q ([] @ c)"
    then show "find_code d q = None"
      using table_strict_prefix_not_found [OF assms(1,2) mem] by simp
  qed
  with Cons.IH [OF rest, of "acc @ [s]"] show ?case
    by (simp add: bits)
qed

text \<open>
  C4 (malformed bit stream), as amended. \<open>decode\<close> has no failure branch: it returns
  \<open>text\<close> whatever is left in \<open>temp_huff\<close>. For a table with distinct keys and
  non-empty, prefix-free codes, and a bit string made of the codes of the symbols of \<open>S\<close>
  followed by leftover bits \<open>r\<close> of which no non-empty prefix is a code of the table (the
  stream ends in the middle of a code, or the accumulated prefix matches no entry), the
  loop ends with \<open>text = S\<close> and \<open>temp_huff = r\<close>, and \<open>decode\<close> returns \<open>S\<close>: the
  leftover bits are dropped silently.
\<close>

theorem decode_drops_leftover_bits:
  assumes "distinct (map fst d)" and "prefix_free d" and "nonempty_codes d"
    and "spec_encode S d = Inr bits"
    and "\<forall>p \<in> set (prefixes r). p \<noteq> [] \<longrightarrow> find_code d p = None"
  shows "decode_loop d (bits @ r) [] [] = (S, r) \<and> decode d (bits @ r) = S"
proof -
  have "decode_loop d (bits @ r) [] [] = ([] @ S, r)"
  proof (rule decode_loop_spec_encode [OF assms(1-3) _ assms(4)])
    fix p :: string
    assume "p \<noteq> []" "prefix p r"
    with assms(5) show "find_code d p = None" by (simp add: in_set_prefixes)
  qed
  then show ?thesis by (simp add: decode_def)
qed

text \<open>
  The statement at the table \<open>{a: 0, b: 10}\<close>, the phrase \<open>ab\<close> and the leftover
  bit \<open>1\<close>, which is the beginning of the code of \<open>b\<close>.
\<close>

theorem decode_drops_leftover_bits_witness:
  "distinct (map fst [(CHR ''a'', ''0''), (CHR ''b'', ''10'')])
   \<and> prefix_free [(CHR ''a'', ''0''), (CHR ''b'', ''10'')]
   \<and> nonempty_codes [(CHR ''a'', ''0''), (CHR ''b'', ''10'')]
   \<and> spec_encode ''ab'' [(CHR ''a'', ''0''), (CHR ''b'', ''10'')] = Inr ''010''
   \<and> prefixes ''1'' = [[], ''1'']
   \<and> find_code [(CHR ''a'', ''0''), (CHR ''b'', ''10'')] ''1'' = (None :: char option)
   \<and> decode_loop [(CHR ''a'', ''0''), (CHR ''b'', ''10'')] (''010'' @ ''1'') [] [] = (''ab'', ''1'')
   \<and> decode [(CHR ''a'', ''0''), (CHR ''b'', ''10'')] (''010'' @ ''1'') = ''ab''"
proof -
  let ?d = "[(CHR ''a'', ''0''), (CHR ''b'', ''10'')]"
  have h1: "distinct (map fst ?d)" by simp
  have h2: "prefix_free ?d" by (simp add: prefix_free_def)
  have h3: "nonempty_codes ?d" by (simp add: nonempty_codes_def)
  have h4: "spec_encode ''ab'' ?d = Inr ''010''" by (simp add: dict_get_def)
  have h5: "prefixes ''1'' = [[], ''1'']" by simp
  have h6: "find_code ?d ''1'' = None" by simp
  have h7: "\<forall>p \<in> set (prefixes ''1''). p \<noteq> [] \<longrightarrow> find_code ?d p = None"
    by (simp add: h5)
  note r = decode_drops_leftover_bits [OF h1 h2 h3 h4 h7]
  from h1 h2 h3 h4 h5 h6 r [THEN conjunct1] r [THEN conjunct2]
  show ?thesis by (intro conjI) assumption+
qed

section \<open>The size of the coded phrase\<close>

subsection \<open>Trees and their code tables\<close>

lemma weight_sum_leaves: "weight f t = sum_list (map f (leaf_list t))"
  by (induction t) auto

lemma leaf_list_nonempty: "leaf_list t \<noteq> []"
  by (induction t) auto

subsection \<open>dict update on fresh keys\<close>

lemma dict_set_fresh: "k \<notin> fst ` set d \<Longrightarrow> dict_set k v d = d @ [(k, v)]"
  by (induction d) (auto simp: image_iff)

lemma dict_update_fresh:
  "distinct (map fst (d @ e)) \<Longrightarrow> dict_update d e = d @ e"
proof (induction e arbitrary: d)
  case Nil
  then show ?case by (simp add: dict_update_def)
next
  case (Cons p e)
  obtain k v where p: "p = (k, v)" by (cases p)
  from Cons.prems have fresh: "k \<notin> fst ` set d"
    by (auto simp: p image_iff)
  from Cons.prems have "distinct (map fst ((d @ [(k, v)]) @ e))"
    by (auto simp: p)
  then have "dict_update (d @ [(k, v)]) e = (d @ [(k, v)]) @ e"
    by (rule Cons.IH)
  moreover have "dict_update d (p # e) = dict_update (dict_set k v d) e"
    by (simp add: dict_update_def p)
  ultimately show ?case
    by (simp add: dict_set_fresh [OF fresh] p)
qed

lemma huffman_encode_keys:
  "distinct (leaf_list t) \<Longrightarrow> map fst (huffman_encode t b) = leaf_list t"
proof (induction t arbitrary: b)
  case (Leaf c)
  then show ?case by simp
next
  case (NodeTree l r)
  from NodeTree.prems have dl: "distinct (leaf_list l)" and dr: "distinct (leaf_list r)"
    by simp_all
  have kl: "map fst (huffman_encode l (b @ ''0'')) = leaf_list l"
    using NodeTree.IH(1) [OF dl] .
  have kr: "map fst (huffman_encode r (b @ ''1'')) = leaf_list r"
    using NodeTree.IH(2) [OF dr] .
  have d1: "distinct (map fst ([] @ huffman_encode l (b @ ''0'')))"
    using dl by (simp add: kl)
  have d2: "distinct (map fst (huffman_encode l (b @ ''0'') @ huffman_encode r (b @ ''1'')))"
    using NodeTree.prems by (simp add: kl kr)
  have "huffman_encode (NodeTree l r) b
      = huffman_encode l (b @ ''0'') @ huffman_encode r (b @ ''1'')"
    by (simp add: dict_update_fresh [OF d1] dict_update_fresh [OF d2])
  then show ?case by (simp add: kl kr)
qed

lemma huffman_encode_append:
  assumes "distinct (leaf_list (NodeTree l r))"
  shows "huffman_encode (NodeTree l r) b
      = huffman_encode l (b @ ''0'') @ huffman_encode r (b @ ''1'')"
proof -
  from assms have dl: "distinct (leaf_list l)" and dr: "distinct (leaf_list r)"
    by simp_all
  have d1: "distinct (map fst ([] @ huffman_encode l (b @ ''0'')))"
    using dl by (simp add: huffman_encode_keys)
  have d2: "distinct (map fst (huffman_encode l (b @ ''0'') @ huffman_encode r (b @ ''1'')))"
    using assms dl dr by (simp add: huffman_encode_keys)
  show ?thesis
    by (simp add: dict_update_fresh [OF d1] dict_update_fresh [OF d2])
qed

lemma huffman_encode_cost:
  "distinct (leaf_list t) \<Longrightarrow>
     sum_list (map (\<lambda>(c, code). int (length code) * f c) (huffman_encode t b))
       = cost f t + int (length b) * weight f t"
proof (induction t arbitrary: b)
  case (Leaf c)
  then show ?case by simp
next
  case (NodeTree l r)
  from NodeTree.prems have dl: "distinct (leaf_list l)" and dr: "distinct (leaf_list r)"
    by simp_all
  let ?h = "\<lambda>(c, code). int (length code) * f c"
  have "sum_list (map ?h (huffman_encode (NodeTree l r) b))
      = sum_list (map ?h (huffman_encode l (b @ ''0'')))
        + sum_list (map ?h (huffman_encode r (b @ ''1'')))"
    by (simp only: huffman_encode_append [OF NodeTree.prems] map_append sum_list_append)
  also have "\<dots> = (cost f l + int (length (b @ ''0'')) * weight f l)
      + (cost f r + int (length (b @ ''1'')) * weight f r)"
    by (simp only: NodeTree.IH(1) [OF dl] NodeTree.IH(2) [OF dr])
  also have "\<dots> = cost f (NodeTree l r) + int (length b) * weight f (NodeTree l r)"
    by (simp add: algebra_simps)
  finally show ?case .
qed

subsection \<open>size_of_coded as a sum\<close>

lemma size_loop_sum:
  "(\<And>c n. (c, n) \<in> set ks \<Longrightarrow> c \<in> fst ` set d) \<Longrightarrow>
     size_loop ks d ret
       = Inr (ret + sum_list (map (\<lambda>(c, n). int (length (the (map_of d c))) * n) ks))"
proof (induction ks arbitrary: ret)
  case Nil
  then show ?case by simp
next
  case (Cons p ks)
  obtain c n where p: "p = (c, n)" by (cases p)
  have "c \<in> fst ` set d" using Cons.prems [of c n] by (simp add: p)
  then obtain code where code: "map_of d c = Some code"
    by (metis map_of_eq_None_iff not_None_eq)
  have rest: "size_loop ks d (ret + int (length code) * n)
      = Inr ((ret + int (length code) * n)
             + sum_list (map (\<lambda>(c, n). int (length (the (map_of d c))) * n) ks))"
  proof (rule Cons.IH)
    fix c' n' assume "(c', n') \<in> set ks"
    then show "c' \<in> fst ` set d" using Cons.prems [of c' n'] by simp
  qed
  show ?case
    by (simp add: p dict_get_def code rest)
qed

lemma codes_by_key:
  assumes "distinct (map fst d)"
  shows "map (\<lambda>c. int (length (the (map_of d c))) * f c) (map fst d)
       = map (\<lambda>(c, code). int (length code) * f c) d"
proof -
  have "map ((\<lambda>c. int (length (the (map_of d c))) * f c) \<circ> fst) d
      = map (\<lambda>(c, code). int (length code) * f c) d"
  proof (rule map_cong [OF refl])
    fix x assume x: "x \<in> set d"
    obtain c code where xc: "x = (c, code)" by (cases x)
    from assms x have "map_of d c = Some code"
      unfolding xc by (rule map_of_is_SomeI)
    then show "((\<lambda>c. int (length (the (map_of d c))) * f c) \<circ> fst) x
        = (case x of (c, code) \<Rightarrow> int (length code) * f c)"
      by (simp add: xc)
  qed
  then show ?thesis by (simp only: map_map)
qed

lemma sum_list_perm:
  "mset xs = mset ys \<Longrightarrow> sum_list (map h xs) = sum_list (map (h :: 'a \<Rightarrow> int) ys)"
proof -
  assume "mset xs = mset ys"
  then have "mset (map h xs) = mset (map h ys)" by simp
  then show ?thesis by (metis sum_mset_sum_list)
qed

subsection \<open>Leaves, weights and costs of a forest\<close>

lemma forest_leaves_append [simp]:
  "forest_leaves (xs @ ys) = forest_leaves xs @ forest_leaves ys"
  by (simp add: forest_leaves_def)

lemma forest_cost_append [simp]:
  "forest_cost f (xs @ ys) = forest_cost f xs + forest_cost f ys"
  by (simp add: forest_cost_def)

lemma mset_forest_leaves_perm:
  "mset xs = mset ys \<Longrightarrow> mset (forest_leaves xs) = mset (forest_leaves ys)"
proof -
  assume "mset xs = mset ys"
  then have "mset (map (\<lambda>p. mset (leaf_list (fst p))) xs)
      = mset (map (\<lambda>p. mset (leaf_list (fst p))) ys)"
    by simp
  then have "sum_list (map (\<lambda>p. mset (leaf_list (fst p))) xs)
      = sum_list (map (\<lambda>p. mset (leaf_list (fst p))) ys)"
    by (metis sum_mset_sum_list)
  then show ?thesis
    by (simp add: forest_leaves_def mset_concat comp_def)
qed

lemma forest_cost_perm: "mset xs = mset ys \<Longrightarrow> forest_cost f xs = forest_cost f ys"
  unfolding forest_cost_def by (rule sum_list_perm)

lemma weights_match_perm: "mset xs = mset ys \<Longrightarrow> weights_match f xs = weights_match f ys"
  unfolding weights_match_def by (metis set_mset_mset)

lemma forest_leaves_leaves: "forest_leaves (leaves ys) = map fst ys"
  by (induction ys) (auto simp: forest_leaves_def leaves_def)

lemma forest_cost_leaves: "forest_cost f (leaves ys) = 0"
  by (induction ys) (auto simp: forest_cost_def leaves_def)

lemma map_snd_leaves: "map snd (leaves ys) = map snd ys"
  by (induction ys) (auto simp: leaves_def)

lemma merge_step_split:
  assumes "1 < length xs"
  obtains rest t2 w2 t1 w1 where "xs = rest @ [(t2, w2), (t1, w1)]"
    and "merge_step xs = sorted_desc (rest @ [(NodeTree t1 t2, w1 + w2)])"
    and "last xs = (t1, w1)" and "last (butlast xs) = (t2, w2)"
proof -
  obtain t1 w1 where l1: "last xs = (t1, w1)" by (cases "last xs")
  obtain t2 w2 where l2: "last (butlast xs) = (t2, w2)" by (cases "last (butlast xs)")
  have a: "xs = butlast (butlast xs) @ [(t2, w2), (t1, w1)]"
    using last_two_split [OF assms] by (simp add: l1 l2)
  have b: "merge_step xs = sorted_desc (butlast (butlast xs) @ [(NodeTree t1 t2, w1 + w2)])"
    by (simp add: merge_step_eq l1 l2)
  from a b l1 l2 show ?thesis by (rule that)
qed

lemma mset_forest_leaves_merge_step:
  assumes "1 < length xs"
  shows "mset (forest_leaves (merge_step xs)) = mset (forest_leaves xs)"
proof -
  obtain rest t2 w2 t1 w1 where xs: "xs = rest @ [(t2, w2), (t1, w1)]"
    and m: "merge_step xs = sorted_desc (rest @ [(NodeTree t1 t2, w1 + w2)])"
    using assms by (rule merge_step_split)
  have "mset (forest_leaves (merge_step xs))
      = mset (forest_leaves (rest @ [(NodeTree t1 t2, w1 + w2)]))"
    unfolding m by (rule mset_forest_leaves_perm) (rule mset_sorted_desc)
  also have "\<dots> = mset (forest_leaves xs)"
    by (simp add: xs forest_leaves_def)
  finally show ?thesis .
qed

lemma weights_match_merge_step:
  assumes "1 < length xs" "weights_match f xs"
  shows "weights_match f (merge_step xs)"
proof -
  obtain rest t2 w2 t1 w1 where xs: "xs = rest @ [(t2, w2), (t1, w1)]"
    and m: "merge_step xs = sorted_desc (rest @ [(NodeTree t1 t2, w1 + w2)])"
    using assms(1) by (rule merge_step_split)
  from assms(2) have "weights_match f (rest @ [(NodeTree t1 t2, w1 + w2)])"
    by (auto simp: xs weights_match_def)
  then show ?thesis
    unfolding m using weights_match_perm [OF mset_sorted_desc] by blast
qed

lemma forest_cost_merge_step:
  assumes "1 < length xs" "weights_match f xs"
  shows "forest_cost f (merge_step xs)
      = forest_cost f xs + snd (last xs) + snd (last (butlast xs))"
proof -
  obtain rest t2 w2 t1 w1 where xs: "xs = rest @ [(t2, w2), (t1, w1)]"
    and m: "merge_step xs = sorted_desc (rest @ [(NodeTree t1 t2, w1 + w2)])"
    and l1: "last xs = (t1, w1)" and l2: "last (butlast xs) = (t2, w2)"
    using assms(1) by (rule merge_step_split)
  from assms(2) have w: "w1 = weight f t1" "w2 = weight f t2"
    by (auto simp: xs weights_match_def)
  have "forest_cost f (merge_step xs) = forest_cost f (rest @ [(NodeTree t1 t2, w1 + w2)])"
    unfolding m by (rule forest_cost_perm) (rule mset_sorted_desc)
  also have "\<dots> = forest_cost f xs + w1 + w2"
    by (simp add: xs forest_cost_def w)
  finally show ?thesis by (simp add: l1 l2)
qed

lemma mset_forest_leaves_build_nodes:
  "mset (forest_leaves (build_nodes xs)) = mset (forest_leaves xs)"
proof (induction xs rule: build_nodes.induct)
  case (1 xs)
  show ?case
  proof (cases "1 < length xs")
    case True
    with "1.IH" mset_forest_leaves_merge_step [OF True] show ?thesis
      by (simp add: build_nodes.simps [of xs])
  next
    case False
    then show ?thesis by (simp add: build_nodes.simps [of xs])
  qed
qed

subsection \<open>The list stays sorted by frequency\<close>

lemma desc_iff:
  "sorted (rev (map snd ys)) \<longleftrightarrow> sorted_wrt (\<lambda>p q. snd q \<le> snd p) ys"
  by (simp add: sorted_wrt_rev sorted_wrt_map)

lemma set_insort_desc: "set (insort_desc x ys) = insert x (set ys)"
  by (induction ys) auto

lemma sorted_wrt_insort_desc:
  "sorted_wrt (\<lambda>p q. snd q \<le> snd p) ys
   \<Longrightarrow> sorted_wrt (\<lambda>p q. snd q \<le> snd p) (insort_desc x ys)"
proof (induction ys)
  case Nil
  then show ?case by simp
next
  case (Cons y ys)
  show ?case
  proof (cases "snd y \<le> snd x")
    case True
    with Cons.prems show ?thesis by force
  next
    case False
    with Cons show ?thesis by (auto simp: set_insort_desc)
  qed
qed

lemma sorted_sorted_desc: "sorted (rev (map snd (sorted_desc xs)))"
  unfolding desc_iff
  by (induction xs) (simp_all add: sorted_desc_def sorted_wrt_insort_desc)

lemma sorted_same_mset:
  fixes xs ys :: "int list"
  assumes "sorted xs" "sorted ys" "mset xs = mset ys"
  shows "xs = ys"
proof -
  have "sort ys = xs" using assms(3) assms(1) by (rule properties_for_sort)
  moreover have "sort ys = ys" using assms(2) by (rule sorted_sort_id)
  ultimately show ?thesis by simp
qed

lemma asc_merge_step:
  assumes "1 < length xs" "sorted (rev (map snd xs))"
  obtains rest where
    "rev (map snd xs) = snd (last xs) # snd (last (butlast xs)) # rest"
    "rev (map snd (merge_step xs)) = insort (snd (last xs) + snd (last (butlast xs))) rest"
proof -
  obtain rs t2 w2 t1 w1 where xs: "xs = rs @ [(t2, w2), (t1, w1)]"
    and m: "merge_step xs = sorted_desc (rs @ [(NodeTree t1 t2, w1 + w2)])"
    and l1: "last xs = (t1, w1)" and l2: "last (butlast xs) = (t2, w2)"
    using assms(1) by (rule merge_step_split)
  let ?rest = "rev (map snd rs)"
  have a: "rev (map snd xs) = w1 # w2 # ?rest" by (simp add: xs)
  with assms(2) have sr: "sorted ?rest" by simp
  have s1: "sorted (rev (map snd (merge_step xs)))"
    unfolding m by (rule sorted_sorted_desc)
  have s2: "sorted (insort (w1 + w2) ?rest)"
    using sr by (simp add: sorted_insort)
  have "mset (map snd (merge_step xs)) = mset (map snd (rs @ [(NodeTree t1 t2, w1 + w2)]))"
    unfolding m by (simp add: mset_sorted_desc)
  then have ms: "mset (rev (map snd (merge_step xs))) = mset (insort (w1 + w2) ?rest)"
    by simp
  have b: "rev (map snd (merge_step xs)) = insort (w1 + w2) ?rest"
    using s1 s2 ms by (rule sorted_same_mset)
  from a b show ?thesis
    by (intro that [of ?rest]) (simp_all add: l1 l2)
qed

subsection \<open>Sums of the smallest frequencies\<close>

lemma sum_take_Suc:
  fixes zs :: "int list"
  shows "m < length zs \<Longrightarrow> sum_list (take (Suc m) zs) = sum_list (take m zs) + zs ! m"
  by (simp add: take_Suc_conv_app_nth)

lemma sum_take_insort_le:
  fixes ys :: "int list"
  shows "sorted ys \<Longrightarrow> m \<le> length ys \<Longrightarrow> sum_list (take m (insort x ys)) \<le> sum_list (take m ys)"
proof (induction ys arbitrary: m)
  case Nil
  then show ?case by simp
next
  case (Cons y ys)
  show ?case
  proof (cases m)
    case 0
    then show ?thesis by simp
  next
    case (Suc m')
    show ?thesis
    proof (cases "x \<le> y")
      case True
      have m': "m' < length (y # ys)" using Cons.prems(2) Suc by simp
      have "(y # ys) ! m' \<in> set (y # ys)" using m' by (rule nth_mem)
      with Cons.prems(1) have "y \<le> (y # ys) ! m'" by auto
      with True have "x \<le> (y # ys) ! m'" by simp
      moreover have "sum_list (take (Suc m') (y # ys)) = sum_list (take m' (y # ys)) + (y # ys) ! m'"
        using m' by (rule sum_take_Suc)
      moreover have "sum_list (take (Suc m') (x # y # ys)) = x + sum_list (take m' (y # ys))"
        by simp
      moreover have ins: "insort x (y # ys) = x # y # ys" using True by simp
      ultimately have "sum_list (take (Suc m') (x # y # ys)) \<le> sum_list (take (Suc m') (y # ys))"
        by linarith
      with ins show ?thesis unfolding Suc by (simp only:)
    next
      case False
      from Cons.prems have "sorted ys" "m' \<le> length ys" by (simp_all add: Suc)
      then have "sum_list (take m' (insort x ys)) \<le> sum_list (take m' ys)"
        by (rule Cons.IH)
      with False show ?thesis by (simp add: Suc)
    qed
  qed
qed

lemma le_last_sorted:
  fixes zs :: "int list"
  shows "sorted zs \<Longrightarrow> x \<in> set zs \<Longrightarrow> x \<le> last zs"
  by (induction zs) (auto split: if_splits)

lemma sum_take_butlast:
  fixes zs :: "int list"
  shows "zs \<noteq> [] \<Longrightarrow> sum_list (take (length zs - 1) zs) = sum_list zs - last zs"
proof -
  assume "zs \<noteq> []"
  then have "zs = butlast zs @ [last zs]" by simp
  then have "sum_list zs = sum_list (butlast zs) + last zs"
    by (metis sum_list_append sum_list.Cons sum_list.Nil add_0_right)
  then show ?thesis by (simp add: butlast_conv_take)
qed

lemma sum_take_le_total:
  fixes zs :: "int list"
  shows "(\<And>z. z \<in> set zs \<Longrightarrow> 0 \<le> z) \<Longrightarrow> sum_list (take m zs) \<le> sum_list zs"
proof -
  assume nn: "\<And>z. z \<in> set zs \<Longrightarrow> 0 \<le> z"
  have "sum_list zs = sum_list (take m zs) + sum_list (drop m zs)"
    by (metis append_take_drop_id sum_list_append)
  moreover have "0 \<le> sum_list (drop m zs)"
    by (rule sum_list_nonneg) (meson in_set_dropD nn)
  ultimately show ?thesis by simp
qed

subsection \<open>A lower bound on the cost of any tree with unit frequencies\<close>

lemma weight_unit:
  "(\<And>c. c \<in> set (leaf_list t) \<Longrightarrow> f c = 1) \<Longrightarrow> weight f t = int (length (leaf_list t))"
  by (induction t) auto

lemma linear_le_power: "int k + 2 \<le> 2 ^ Suc k"
  by (induction k) auto

lemma cost_lower_bound:
  "(\<And>c. c \<in> set (leaf_list t) \<Longrightarrow> f c = 1)
   \<Longrightarrow> (int k + 2) * int (length (leaf_list t)) - 2 ^ Suc k \<le> cost f t"
proof (induction t arbitrary: k)
  case (Leaf c)
  show ?case using linear_le_power [of k] by simp
next
  case (NodeTree l r)
  have ul: "\<And>c. c \<in> set (leaf_list l) \<Longrightarrow> f c = 1"
    and ur: "\<And>c. c \<in> set (leaf_list r) \<Longrightarrow> f c = 1"
    using NodeTree.prems by simp_all
  define nl where "nl = int (length (leaf_list l))"
  define nr where "nr = int (length (leaf_list r))"
  have wl: "weight f l = nl" unfolding nl_def using ul by (rule weight_unit)
  have wr: "weight f r = nr" unfolding nr_def using ur by (rule weight_unit)
  have pos: "1 \<le> nl" "1 \<le> nr"
    using leaf_list_nonempty [of l] leaf_list_nonempty [of r]
    by (simp_all add: nl_def nr_def Suc_le_eq)
  have len: "int (length (leaf_list (NodeTree l r))) = nl + nr"
    by (simp add: nl_def nr_def)
  have c: "cost f (NodeTree l r) = cost f l + cost f r + nl + nr"
    by (simp add: wl wr)
  show ?case
  proof (cases k)
    case 0
    have "(int 0 + 2) * nl - 2 ^ Suc 0 \<le> cost f l"
      unfolding nl_def using ul by (rule NodeTree.IH(1))
    moreover have "(int 0 + 2) * nr - 2 ^ Suc 0 \<le> cost f r"
      unfolding nr_def using ur by (rule NodeTree.IH(2))
    ultimately show ?thesis
      unfolding len c using pos by (simp add: 0 algebra_simps)
  next
    case (Suc k')
    have "(int k' + 2) * nl - 2 ^ Suc k' \<le> cost f l"
      unfolding nl_def using ul by (rule NodeTree.IH(1))
    moreover have "(int k' + 2) * nr - 2 ^ Suc k' \<le> cost f r"
      unfolding nr_def using ur by (rule NodeTree.IH(2))
    ultimately show ?thesis
      unfolding len c by (simp add: Suc algebra_simps)
  qed
qed

subsection \<open>The cost of the tree that build\_nodes makes\<close>

text \<open>
  With \<open>n\<close> items, \<open>2 ^ k \<le> n < 2 ^ (k + 1)\<close>, the merges of \<open>build_nodes\<close> add to the
  cost at most \<open>k\<close> times the total frequency plus the sum of the \<open>2 * (n - 2 ^ k)\<close>
  smallest frequencies. A merge of the two smallest items keeps this bound: if \<open>n\<close> is
  above \<open>2 ^ k\<close> the two merged frequencies leave the sum of the smallest ones, and if
  \<open>n = 2 ^ k\<close> the merged item is no larger than the largest item left.
\<close>

lemma forest_cost_build_nodes_le:
  "xs \<noteq> [] \<Longrightarrow> weights_match f xs \<Longrightarrow> sorted (rev (map snd xs))
   \<Longrightarrow> 2 ^ k \<le> length xs \<Longrightarrow> length xs < 2 ^ Suc k
   \<Longrightarrow> forest_cost f (build_nodes xs)
       \<le> forest_cost f xs + int k * sum_list (map snd xs)
           + sum_list (take (2 * (length xs - 2 ^ k)) (rev (map snd xs)))"
proof (induction xs arbitrary: k rule: build_nodes.induct)
  case (1 xs)
  let ?n = "length xs"
  let ?W = "sum_list (map snd xs)"
  show ?case
  proof (cases "1 < ?n")
    case False
    with "1.prems"(1) have n1: "?n = 1" by (cases xs) auto
    have "k = 0"
    proof (rule ccontr)
      assume "k \<noteq> 0"
      then obtain k' where k: "k = Suc k'" by (cases k) auto
      have "(1::nat) \<le> 2 ^ k'" by simp
      then have "(2::nat) \<le> 2 ^ k" by (simp add: k)
      with "1.prems"(4) n1 show False by simp
    qed
    with False n1 show ?thesis by (simp add: build_nodes.simps [of xs])
  next
    case True
    let ?xs' = "merge_step xs"
    let ?a = "snd (last xs)"
    let ?b = "snd (last (butlast xs))"
    obtain rest where asc: "rev (map snd xs) = ?a # ?b # rest"
      and asc': "rev (map snd ?xs') = insort (?a + ?b) rest"
      using True "1.prems"(3) by (rule asc_merge_step)
    have sr: "sorted rest" using "1.prems"(3) by (simp add: asc)
    have len': "length ?xs' = ?n - 1" using True by (rule length_merge_step)
    have lrest: "length rest = ?n - 2"
    proof -
      have "length (rev (map snd xs)) = Suc (Suc (length rest))" by (simp add: asc)
      then show ?thesis by simp
    qed
    have ne': "?xs' \<noteq> []" using len' True by auto
    have wm': "weights_match f ?xs'" using True "1.prems"(2) by (rule weights_match_merge_step)
    have so': "sorted (rev (map snd ?xs'))"
      using sr by (simp add: asc' sorted_insort)
    have W': "sum_list (map snd ?xs') = ?W" using True by (rule sum_merge_step)
    have fc': "forest_cost f ?xs' = forest_cost f xs + ?a + ?b"
      using True "1.prems"(2) by (rule forest_cost_merge_step)
    have bn: "build_nodes xs = build_nodes ?xs'"
      using True by (simp add: build_nodes.simps [of xs])
    show ?thesis
    proof (cases "?n = 2 ^ k")
      case pow: True
      have "k \<noteq> 0"
      proof
        assume "k = 0"
        with pow True show False by simp
      qed
      then obtain k' where k: "k = Suc k'" by (cases k) auto
      have n: "?n = 2 * 2 ^ k'" using pow by (simp add: k)
      have lo: "2 ^ k' \<le> length ?xs'"
      proof -
        have "(1::nat) \<le> 2 ^ k'" by simp
        then show ?thesis unfolding len' n by linarith
      qed
      have hi: "length ?xs' < 2 ^ Suc k'" unfolding len' n by simp
      have idx: "2 * (length ?xs' - 2 ^ k') = length (rev (map snd ?xs')) - 1"
      proof -
        have "(1::nat) \<le> 2 ^ k'" by simp
        then show ?thesis by (simp add: len' n algebra_simps)
      qed
      have ne'': "rev (map snd ?xs') \<noteq> []" using ne' by simp
      have IH: "forest_cost f (build_nodes ?xs')
          \<le> forest_cost f ?xs' + int k' * sum_list (map snd ?xs')
              + sum_list (take (2 * (length ?xs' - 2 ^ k')) (rev (map snd ?xs')))"
        using True ne' wm' so' lo hi by (rule "1.IH")
      have "sum_list (take (2 * (length ?xs' - 2 ^ k')) (rev (map snd ?xs')))
          = sum_list (rev (map snd ?xs')) - last (rev (map snd ?xs'))"
        unfolding idx using ne'' by (rule sum_take_butlast)
      also have "sum_list (rev (map snd ?xs')) = ?W"
        using W' by (simp add: sum_list_rev)
      finally have tk: "sum_list (take (2 * (length ?xs' - 2 ^ k')) (rev (map snd ?xs')))
          = ?W - last (rev (map snd ?xs'))" .
      have "?a + ?b \<le> last (insort (?a + ?b) rest)"
        using sr by (intro le_last_sorted) (simp_all add: sorted_insort set_insort_key)
      then have ab: "?a + ?b \<le> last (rev (map snd ?xs'))" by (simp only: asc')
      have "forest_cost f (build_nodes xs)
          \<le> forest_cost f xs + ?a + ?b + int k' * ?W + (?W - last (rev (map snd ?xs')))"
        using IH unfolding bn fc' W' tk by simp
      also have "\<dots> \<le> forest_cost f xs + (int k' + 1) * ?W"
        using ab by (simp add: algebra_simps)
      finally show ?thesis by (simp add: pow k add.commute)
    next
      case npow: False
      with "1.prems"(4) have gt: "2 ^ k < ?n" by simp
      have lo: "2 ^ k \<le> length ?xs'" unfolding len' using gt by simp
      have hi: "length ?xs' < 2 ^ Suc k" unfolding len' using "1.prems"(5) by simp
      let ?m = "2 * (length ?xs' - 2 ^ k)"
      have m_le: "?m \<le> length rest"
        unfolding len' lrest using "1.prems"(5) gt by simp
      have m_eq: "2 * (?n - 2 ^ k) = Suc (Suc ?m)"
        unfolding len' using gt by simp
      have IH: "forest_cost f (build_nodes ?xs')
          \<le> forest_cost f ?xs' + int k * sum_list (map snd ?xs')
              + sum_list (take ?m (rev (map snd ?xs')))"
        using True ne' wm' so' lo hi by (rule "1.IH")
      have "sum_list (take ?m (rev (map snd ?xs'))) \<le> sum_list (take ?m rest)"
        unfolding asc' using sr m_le by (rule sum_take_insort_le)
      with IH have "forest_cost f (build_nodes xs)
          \<le> forest_cost f xs + ?a + ?b + int k * ?W + sum_list (take ?m rest)"
        unfolding bn fc' W' by simp
      moreover have "sum_list (take (2 * (?n - 2 ^ k)) (rev (map snd xs)))
          = ?a + ?b + sum_list (take ?m rest)"
        unfolding m_eq asc by simp
      ultimately show ?thesis by simp
    qed
  qed
qed

subsection \<open>The pipeline and the cost of its tree\<close>

lemma tally_nonempty: "S \<noteq> [] \<Longrightarrow> tally S \<noteq> []"
proof
  assume "S \<noteq> []" "tally S = []"
  moreover have "fst ` set (tally S) = set S"
    by (simp add: tally_def set_sorted_desc keys_phrase_dict)
  ultimately show False by simp
qed

lemma tally_keys:
  "distinct (map fst (tally S))" "set (map fst (tally S)) = set S"
  by (simp_all add: tally_def distinct_fst_sorted_desc distinct_phrase_dict set_sorted_desc
      keys_phrase_dict)

lemma length_tally: "length (tally S) = card (set S)"
proof -
  have "card (set (map fst (tally S))) = length (map fst (tally S))"
    using tally_keys(1) by (rule distinct_card)
  then show ?thesis by (simp only: tally_keys(2) length_map)
qed

lemma weights_match_leaves_tally:
  "weights_match (\<lambda>c. int (count_list S c)) (leaves (tally S))"
  unfolding weights_match_def leaves_def
  using tally_entry [of _ _ S] by auto

lemma sorted_leaves_tally: "sorted (rev (map snd (leaves (tally S))))"
  by (simp add: map_snd_leaves tally_def sorted_sorted_desc)

lemma sum_leaves_tally: "sum_list (map snd (leaves (tally S))) = int (length S)"
  by (simp add: map_snd_leaves tally_def sum_snd_sorted_desc sum_phrase_dict)

lemma new_size_is_cost:
  assumes "S \<noteq> []"
  shows "new_size S
      = Inr (forest_cost (\<lambda>c. int (count_list S c)) (build_nodes (leaves (tally S))))"
proof -
  let ?f = "\<lambda>c. int (count_list S c)"
  let ?T = "tally S"
  have ne: "leaves ?T \<noteq> []"
    using tally_nonempty [OF assms] by (simp add: leaves_def)
  then obtain t where bn: "build_nodes (leaves ?T) = [(t, sum_list (map snd (leaves ?T)))]"
    using build_nodes_sum by blast
  let ?d = "huffman_encode t []"
  have "mset (forest_leaves (build_nodes (leaves ?T))) = mset (forest_leaves (leaves ?T))"
    by (rule mset_forest_leaves_build_nodes)
  then have ms: "mset (leaf_list t) = mset (map fst ?T)"
    by (simp add: bn forest_leaves_def forest_leaves_leaves [unfolded forest_leaves_def])
  have dt: "distinct (leaf_list t)"
    using ms tally_keys(1) [of S] by (metis mset_eq_imp_distinct_iff)
  have keys: "map fst ?d = leaf_list t" using dt by (rule huffman_encode_keys)
  have dd: "distinct (map fst ?d)" using dt by (simp only: keys)
  have code: "huffman_code S = Inr ?d"
    by (simp add: huffman_code_def node_tree_def bn root_of_def)
  let ?g = "\<lambda>c. int (length (the (map_of ?d c)))"
  have sz: "size_loop ?T ?d 0 = Inr (0 + sum_list (map (\<lambda>(c, n). ?g c * n) ?T))"
  proof (rule size_loop_sum)
    fix c n assume "(c, n) \<in> set ?T"
    then have "c \<in> set (map fst ?T)" by force
    then have "c \<in> set (leaf_list t)" using ms by (metis set_mset_mset)
    then show "c \<in> fst ` set ?d" using keys by (metis set_map)
  qed
  have "map (\<lambda>(c, n). ?g c * n) ?T = map ((\<lambda>c. ?g c * ?f c) \<circ> fst) ?T"
  proof (rule map_cong [OF refl])
    fix x assume x: "x \<in> set ?T"
    obtain c n where xc: "x = (c, n)" by (cases x)
    from x have "n = ?f c" unfolding xc using tally_entry by fastforce
    then show "(case x of (c, n) \<Rightarrow> ?g c * n) = ((\<lambda>c. ?g c * ?f c) \<circ> fst) x"
      by (simp add: xc)
  qed
  then have "sum_list (map (\<lambda>(c, n). ?g c * n) ?T)
      = sum_list (map (\<lambda>c. ?g c * ?f c) (map fst ?T))"
    by (simp only: map_map)
  also have "\<dots> = sum_list (map (\<lambda>c. ?g c * ?f c) (leaf_list t))"
    using ms [symmetric] by (rule sum_list_perm)
  also have "\<dots> = sum_list (map (\<lambda>c. ?g c * ?f c) (map fst ?d))"
    by (simp only: keys)
  also have "\<dots> = sum_list (map (\<lambda>(c, code). int (length code) * ?f c) ?d)"
    using codes_by_key [OF dd, of ?f] by (simp only:)
  also have "\<dots> = cost ?f t + int (length ([] :: string)) * weight ?f t"
    using dt by (rule huffman_encode_cost)
  finally have total: "sum_list (map (\<lambda>(c, n). ?g c * n) ?T) = cost ?f t" by simp
  have "new_size S = Inr (cost ?f t)"
    by (simp add: new_size_def code size_of_coded_def sz total)
  then show ?thesis by (simp add: bn forest_cost_def)
qed

lemma new_size_upper:
  assumes "S \<noteq> []" "2 ^ k \<le> card (set S)" "card (set S) < 2 ^ Suc k"
  obtains bits where "new_size S = Inr bits"
    "bits \<le> int k * int (length S)
        + sum_list (take (2 * (card (set S) - 2 ^ k)) (rev (map snd (tally S))))"
proof -
  let ?f = "\<lambda>c. int (count_list S c)"
  let ?xs = "leaves (tally S)"
  have len: "length ?xs = card (set S)" by (simp add: leaves_def length_tally)
  have ne: "?xs \<noteq> []" using tally_nonempty [OF assms(1)] by (simp add: leaves_def)
  have "forest_cost ?f (build_nodes ?xs)
      \<le> forest_cost ?f ?xs + int k * sum_list (map snd ?xs)
          + sum_list (take (2 * (length ?xs - 2 ^ k)) (rev (map snd ?xs)))"
    using ne weights_match_leaves_tally sorted_leaves_tally assms(2,3)
    unfolding len [symmetric] by (rule forest_cost_build_nodes_le)
  then have "forest_cost ?f (build_nodes ?xs)
      \<le> int k * int (length S)
          + sum_list (take (2 * (card (set S) - 2 ^ k)) (rev (map snd (tally S))))"
    by (simp add: forest_cost_leaves sum_leaves_tally [unfolded map_snd_leaves] len
        map_snd_leaves)
  with new_size_is_cost [OF assms(1)] show ?thesis by (rule that)
qed

lemma pipeline_tree:
  assumes "S \<noteq> []"
  obtains t where "build_nodes (leaves (tally S)) = [(t, int (length S))]"
    and "mset (leaf_list t) = mset (map fst (tally S))"
proof -
  let ?T = "tally S"
  have ne: "leaves ?T \<noteq> []"
    using tally_nonempty [OF assms] by (simp add: leaves_def)
  then obtain t where bn: "build_nodes (leaves ?T) = [(t, sum_list (map snd (leaves ?T)))]"
    using build_nodes_sum by blast
  have "mset (forest_leaves (build_nodes (leaves ?T))) = mset (forest_leaves (leaves ?T))"
    by (rule mset_forest_leaves_build_nodes)
  then have ms: "mset (leaf_list t) = mset (map fst ?T)"
    by (simp add: bn forest_leaves_def forest_leaves_leaves [unfolded forest_leaves_def])
  from bn ms show ?thesis
    by (intro that [of t]) (simp_all add: sum_leaves_tally)
qed

lemma tally_counts_nonneg: "z \<in> set (rev (map snd (tally S))) \<Longrightarrow> 0 \<le> z"
proof -
  assume "z \<in> set (rev (map snd (tally S)))"
  then obtain c where "(c, z) \<in> set (tally S)" by auto
  then have "z = int (count_list S c)" using tally_entry by fastforce
  then show ?thesis by simp
qed

lemma sum_counts_tally: "sum_list (rev (map snd (tally S))) = int (length S)"
  by (simp add: sum_list_rev tally_def sum_snd_sorted_desc sum_phrase_dict)

lemma size_bound_nonempty:
  assumes "S \<noteq> []" "card (set S) \<le> 256"
  shows "\<exists>bits. new_size S = Inr bits \<and> bits \<le> size_of_original S"
proof -
  let ?n = "card (set S)"
  let ?asc = "rev (map snd (tally S))"
  have "1 \<le> ?n" using assms(1) by (simp add: Suc_le_eq card_gt_0_iff)
  then obtain k where k: "2 ^ k \<le> ?n" "?n < 2 ^ (k + 1)"
    using ex_power_ivl1 [of 2 ?n] by auto
  from k(2) have k2: "?n < 2 ^ Suc k" by simp
  obtain bits where ns: "new_size S = Inr bits"
    and le: "bits \<le> int k * int (length S) + sum_list (take (2 * (?n - 2 ^ k)) ?asc)"
    using assms(1) k(1) k2 by (rule new_size_upper)
  have "(2::nat) ^ k \<le> 2 ^ 8" using k(1) assms(2) by simp
  then have k8: "k \<le> 8" by (rule power_le_imp_le_exp [rotated]) simp
  have tk: "sum_list (take (2 * (?n - 2 ^ k)) ?asc) \<le> int (length S)"
    using sum_take_le_total [of ?asc "2 * (?n - 2 ^ k)"] tally_counts_nonneg [of _ S]
    by (simp only: sum_counts_tally)
  have "bits \<le> 8 * int (length S)"
  proof (cases "k = 8")
    case True
    with k(1) assms(2) have "?n - 2 ^ k = 0" by simp
    with le True show ?thesis by simp
  next
    case False
    with k8 have "int k \<le> 7" by simp
    then have "int k * int (length S) \<le> 7 * int (length S)"
      by (rule mult_right_mono) simp
    with le tk show ?thesis by linarith
  qed
  with ns show ?thesis by (simp add: size_of_original_def)
qed

text \<open>
  C8 (size bound), as amended: for every phrase with more than one and at most 256
  distinct symbols, \<open>size_of_coded\<close> on the tally and the code table of the phrase
  returns a number of bits that is at most \<open>len(S) * 8\<close>.
\<close>

theorem size_bound_8bit:
  assumes "1 < card (set S)" and "card (set S) \<le> 256"
  shows "\<exists>bits. new_size S = Inr bits \<and> bits \<le> size_of_original S"
proof -
  from assms(1) have "S \<noteq> []" by auto
  then show ?thesis using assms(2) by (rule size_bound_nonempty)
qed

text \<open>The statement at the phrase \<open>aaabbc\<close>: 9 bits against 48.\<close>

theorem size_bound_8bit_witness:
  "1 < card (set ''aaabbc'') \<and> card (set ''aaabbc'') \<le> 256
   \<and> new_size ''aaabbc'' = Inr 9 \<and> size_of_original ''aaabbc'' = 48"
proof -
  have c: "card (set ''aaabbc'') = 3" by simp
  have h1: "1 < card (set ''aaabbc'')" by (simp add: c)
  have h2: "card (set ''aaabbc'') \<le> 256" by (simp add: c)
  have n: "new_size ''aaabbc'' = Inr 9" by code_simp
  have o: "size_of_original ''aaabbc'' = 48" by (simp add: size_of_original_def)
  from size_bound_8bit [OF h1 h2] obtain bits where
    "new_size ''aaabbc'' = Inr bits" "bits \<le> size_of_original ''aaabbc''" by blast
  with h1 h2 n o show ?thesis by (intro conjI) assumption+
qed

subsection \<open>257 distinct symbols\<close>

lemma count_list_distinct: "distinct S \<Longrightarrow> c \<in> set S \<Longrightarrow> count_list S c = 1"
  by (induction S) (auto simp: count_list_0_iff)

lemma sum_take_units:
  fixes zs :: "int list"
  shows "(\<And>z. z \<in> set zs \<Longrightarrow> z = 1) \<Longrightarrow> sum_list (take m zs) = int (min m (length zs))"
proof (induction zs arbitrary: m)
  case Nil
  then show ?case by simp
next
  case (Cons z zs)
  have z: "z = 1" using Cons.prems [of z] by simp
  have rest: "\<And>m'. sum_list (take m' zs) = int (min m' (length zs))"
    using Cons.IH Cons.prems by simp
  show ?case
    by (cases m) (simp_all add: z rest)
qed

lemma new_size_distinct:
  assumes "distinct S" "2 ^ k \<le> length S" "length S < 2 ^ Suc k"
  shows "new_size S = Inr ((int k + 2) * int (length S) - 2 ^ Suc k)"
proof -
  let ?f = "\<lambda>c. int (count_list S c)"
  let ?asc = "rev (map snd (tally S))"
  have card: "card (set S) = length S" using assms(1) by (rule distinct_card)
  have "1 \<le> (2::nat) ^ k" by simp
  with assms(2) have ne: "S \<noteq> []" by auto
  have unit: "\<And>c. c \<in> set S \<Longrightarrow> ?f c = 1"
    using count_list_distinct [OF assms(1)] by simp
  obtain bits where ns: "new_size S = Inr bits"
    and le: "bits \<le> int k * int (length S) + sum_list (take (2 * (card (set S) - 2 ^ k)) ?asc)"
    using ne assms(2,3) [folded card] by (rule new_size_upper)
  have units: "\<And>z. z \<in> set ?asc \<Longrightarrow> z = 1"
  proof -
    fix z assume "z \<in> set ?asc"
    then obtain c where "(c, z) \<in> set (tally S)" by auto
    then have "c \<in> set S \<and> z = ?f c" by (rule tally_entry)
    with unit show "z = 1" by simp
  qed
  have la: "length ?asc = length S" by (simp add: length_tally card)
  have "sum_list (take (2 * (card (set S) - 2 ^ k)) ?asc)
      = int (min (2 * (card (set S) - 2 ^ k)) (length ?asc))"
    using units by (rule sum_take_units)
  also have "\<dots> = int (2 * (length S - 2 ^ k))"
  proof -
    have "2 * (length S - 2 ^ k) \<le> length S" using assms(2,3) by simp
    then show ?thesis by (simp only: la card min_absorb1)
  qed
  also have "\<dots> = 2 * (int (length S) - 2 ^ k)"
    using assms(2) by (simp add: of_nat_diff)
  finally have upper: "bits \<le> (int k + 2) * int (length S) - 2 ^ Suc k"
    using le by (simp add: algebra_simps)
  obtain t where bn: "build_nodes (leaves (tally S)) = [(t, int (length S))]"
    and ms: "mset (leaf_list t) = mset (map fst (tally S))"
    using ne by (rule pipeline_tree)
  have st: "set (leaf_list t) = set S"
    using ms tally_keys(2) [of S] by (metis set_mset_mset)
  have lt: "length (leaf_list t) = length S"
    using ms length_tally [of S] card by (metis length_map size_mset)
  have "(int k + 2) * int (length (leaf_list t)) - 2 ^ Suc k \<le> cost ?f t"
    by (rule cost_lower_bound) (simp add: st unit)
  moreover have "new_size S = Inr (cost ?f t)"
    using new_size_is_cost [OF ne] by (simp add: bn forest_cost_def)
  ultimately have lower: "(int k + 2) * int (length S) - 2 ^ Suc k \<le> bits"
    using ns by (simp add: lt)
  from upper lower ns show ?thesis by simp
qed

text \<open>
  C8 (size bound), as the claim states it, fails: a phrase of 257 distinct characters (here
  the code points 0 to 256, each once) has more than one distinct symbol, its coded size is
  2058 bits, and \<open>len(S) * 8\<close> is 2056.
\<close>

theorem size_bound_fails_257:
  "card (set [0..<257 :: nat]) = 257
   \<and> new_size [0..<257 :: nat] = Inr 2058
   \<and> size_of_original [0..<257 :: nat] = 2056"
proof -
  have d: "distinct [0..<257 :: nat]" by simp
  have l: "length [0..<257 :: nat] = 257" by simp
  have a: "2 ^ 8 \<le> length [0..<257 :: nat]" by simp
  have b: "length [0..<257 :: nat] < 2 ^ Suc 8" by simp
  have "new_size [0..<257 :: nat] = Inr ((int 8 + 2) * int (length [0..<257 :: nat]) - 2 ^ Suc 8)"
    using d a b by (rule new_size_distinct)
  then have n: "new_size [0..<257 :: nat] = Inr 2058" by (simp only: l) simp
  have c: "card (set [0..<257 :: nat]) = 257" by simp
  have o: "size_of_original [0..<257 :: nat] = 2056"
    by (simp add: size_of_original_def)
  from c n o show ?thesis by (intro conjI)
qed

section \<open>The pipeline on concrete phrases\<close>

text \<open>
  C1 (round trip). The script's header announces that the coded string is made from the
  dictionary and that decoding it recreates the original phrase. On the phrase \<open>ab\<close>
  the code table is \<open>{b: 0, a: 1}\<close>, \<open>create_huffman_string\<close> returns \<open>001\<close>
  (it walks the tree and never reads the phrase), and \<open>decode\<close> turns that into \<open>bba\<close>:
  the round trip does not return the phrase.
\<close>

theorem round_trip_ab:
  "huffman_code ''ab'' = Inr [(CHR ''b'', ''0''), (CHR ''a'', ''1'')]
   \<and> encoded_string ''ab'' = Inr ''001''
   \<and> decoded_phrase ''ab'' = Inr ''bba''"
  by code_simp

text \<open>
  C2 (encoder output). For the phrase \<open>abb\<close> and its table \<open>{a: 0, b: 1}\<close> the
  concatenation of the codes in input order is \<open>011\<close>; \<open>create_huffman_string\<close>
  returns \<open>001\<close>, which is not that concatenation.
\<close>

theorem encoder_output_abb:
  "huffman_code ''abb'' = Inr [(CHR ''a'', ''0''), (CHR ''b'', ''1'')]
   \<and> spec_encode ''abb'' [(CHR ''a'', ''0''), (CHR ''b'', ''1'')] = Inr ''011''
   \<and> encoded_string ''abb'' = Inr ''001''"
  by code_simp

text \<open>
  C3 (empty frequency table), as the claim states it, fails: \<open>build_nodes\<close> on the empty
  list skips its loop and returns the empty list, a value and no error.
\<close>

theorem build_nodes_empty_returns:
  "build_nodes (leaves (tally ([] :: string))) = []"
  by code_simp

text \<open>
  C3 as amended: on the empty frequency table \<open>build_nodes\<close> returns the empty list and
  raises nothing; the script fails one step later, with IndexError, when it reads
  \<open>node_tree[0][0]\<close>.
\<close>

theorem build_nodes_empty:
  "build_nodes ([] :: ('a node \<times> int) list) = []
   \<and> root_of (build_nodes ([] :: ('a node \<times> int) list)) = Inl IndexError
   \<and> huffman_code ([] :: 'a list) = Inl IndexError"
  by (simp add: build_nodes.simps root_of_def huffman_code_def node_tree_def tally_def
      phrase_dict_def sorted_desc_def leaves_def)

text \<open>
  C4 (malformed bit stream), as the claim states it, fails: with the table \<open>{a: 0, b: 10}\<close>
  the bit string \<open>01\<close> ends in the middle of the code of \<open>b\<close>, and \<open>decode\<close> returns
  the symbol sequence \<open>a\<close>.
\<close>

theorem decode_mid_code_returns:
  "decode [(CHR ''a'', ''0''), (CHR ''b'', ''10'')] ''01'' = ''a''"
  by code_simp

text \<open>
  C5 (one repeated symbol). On the phrase \<open>aaa\<close> the tree is the single leaf \<open>a\<close>, the
  code of \<open>a\<close> is the empty string, the coded string is empty and decoding it gives the
  empty phrase.
\<close>

theorem single_symbol_aaa:
  "node_tree ''aaa'' = [(Leaf CHR ''a'', 3)]
   \<and> huffman_code ''aaa'' = Inr [(CHR ''a'', [])]
   \<and> encoded_string ''aaa'' = Inr []
   \<and> decoded_phrase ''aaa'' = Inr []"
  by code_simp

text \<open>
  C6 (prefix-free, non-empty codes). On the non-empty phrase \<open>zz\<close> the code table gives
  \<open>z\<close> the empty bit string, so not every code of a generated table is non-empty.
\<close>

theorem empty_code_zz:
  "huffman_code ''zz'' = Inr [(CHR ''z'', [])]
   \<and> dict_get [(CHR ''z'', ([] :: string))] CHR ''z'' = Inr []"
  by code_simp

text \<open>
  C9 (the phrase \<open>aaabbc\<close>). The tally is \<open>a:3, b:2, c:1\<close>, the codes are \<open>c = 00\<close>,
  \<open>b = 01\<close>, \<open>a = 1\<close>, and \<open>size_of_coded\<close> is 9. The string that
  \<open>create_huffman_string\<close> returns has 15 characters and decodes to \<open>cccacccaa\<close>.
  (Given the nine bits \<open>111010100\<close> that the specification's encoder would produce,
  \<open>decode\<close> does return \<open>aaabbc\<close>.)
\<close>

theorem scenario_aaabbc:
  "tally ''aaabbc'' = [(CHR ''a'', 3), (CHR ''b'', 2), (CHR ''c'', 1)]
   \<and> huffman_code ''aaabbc'' = Inr [(CHR ''c'', ''00''), (CHR ''b'', ''01''), (CHR ''a'', ''1'')]
   \<and> new_size ''aaabbc'' = Inr 9
   \<and> encoded_string ''aaabbc'' = Inr ''000000100000011''
   \<and> decoded_phrase ''aaabbc'' = Inr ''cccacccaa''
   \<and> spec_encode ''aaabbc'' [(CHR ''c'', ''00''), (CHR ''b'', ''01''), (CHR ''a'', ''1'')]
       = Inr ''111010100''
   \<and> decode [(CHR ''c'', ''00''), (CHR ''b'', ''01''), (CHR ''a'', ''1'')] ''111010100''
       = ''aaabbc''"
  by code_simp

end
